theory Spec2Isabelle
  imports Complex_Main "HOL-Library.Word"
begin

section \<open>Strings and numbers of the source language\<close>

text \<open>
  A string of the source is a finite sequence of 16-bit code units; \<open>length\<close> counts
  code units, as the \<open>length\<close> property of the source does.
\<close>

type_synonym jsstring = "16 word list"

definition str :: "string \<Rightarrow> jsstring" where
  "str s = map of_char s"

text \<open>
  The characters that \<open>trim()\<close> strips and that the pattern class \<open>\\s\<close> matches:
  white space and line terminators of the language (TAB, LF, VT, FF, CR, SP, NBSP, U+1680,
  U+2000..U+200A, U+2028, U+2029, U+202F, U+205F, U+3000, U+FEFF).
\<close>

definition isWhiteSpace :: "16 word \<Rightarrow> bool" where
  "isWhiteSpace c =
     (c = 9 \<or> c = 10 \<or> c = 11 \<or> c = 12 \<or> c = 13 \<or> c = 32 \<or> c = 160 \<or> c = 5760 \<or>
      (8192 \<le> c \<and> c \<le> 8202) \<or> c = 8232 \<or> c = 8233 \<or> c = 8239 \<or> c = 8287 \<or>
      c = 12288 \<or> c = 65279)"

definition LF :: "16 word" where
  "LF = 10"

text \<open>\<open>text.split('\\n')\<close>: never empty, the empty string gives one empty line.\<close>

fun split_nl :: "jsstring \<Rightarrow> jsstring list" where
  "split_nl [] = [] # []"
| "split_nl (c # cs) =
     (if c = LF then [] # split_nl cs
      else (case split_nl cs of
              [] \<Rightarrow> [c] # []
            | line # lines \<Rightarrow> (c # line) # lines))"


definition trim :: "jsstring \<Rightarrow> jsstring" where
  "trim s = rev (dropWhile isWhiteSpace (rev (dropWhile isWhiteSpace s)))"

text \<open>The group captured by \<open>line.match(/^(\\s*)/)\<close>: the longest white-space prefix.\<close>

definition leadingWhiteSpace :: "jsstring \<Rightarrow> jsstring" where
  "leadingWhiteSpace line = takeWhile isWhiteSpace line"


text \<open>
  Reading a property of \<open>undefined\<close> (an array read out of range followed by a field
  access) raises a \<open>TypeError\<close>; \<open>NotATree\<close> stands for an object graph that is no finite
  tree, on which the recursive consumers of the source would not return.
\<close>

datatype error = TypeError | NotATree

definition nth_checked :: "'a list \<Rightarrow> nat \<Rightarrow> error + 'a" where
  "nth_checked xs i = (if i < length xs then Inr (xs ! i) else Inl TypeError)"

section \<open>Data model\<close>

text \<open>
  \<open>MindmapNode\<close>: \<open>id\<close>, \<open>text\<close>, \<open>children\<close>. The optional presentation flag
  \<open>collapsed\<close> is neither read nor written by the functions below and is left out.
\<close>

datatype MindmapNode =
  Node (node_id: jsstring) (node_text: jsstring) (node_children: "MindmapNode list")

record ParsedLine =
  pl_text :: jsstring
  pl_level :: nat
  pl_lineNumber :: nat

text \<open>
  While the parser runs, nodes are mutable objects shared between the tree and the ancestor
  stack. An object lives in a store at the address it was allocated at; its children are
  addresses.
\<close>

record obj =
  o_id :: jsstring
  o_text :: jsstring
  o_children :: "nat list"

type_synonym store = "obj list"

text \<open>A stack entry \<open>{ node, level }\<close>; the stack is kept with its top at the head.\<close>

type_synonym stack = "(nat \<times> nat) list"

section \<open>The parser\<close>

text \<open>The body of the \<open>forEach\<close> callback; \<open>None\<close> is the early return on a blank line.\<close>

definition parseLine :: "nat \<Rightarrow> jsstring \<Rightarrow> ParsedLine option" where
  "parseLine index line =
     (if trim line = [] then None
      else
        let spaces = length (leadingWhiteSpace line);
            level = spaces div 2;
            text = trim line
        in Some \<lparr>pl_text = text, pl_level = level, pl_lineNumber = index + 1\<rparr>)"

definition parsedLines :: "jsstring \<Rightarrow> ParsedLine list" where
  "parsedLines text =
     List.map_filter (\<lambda>(index, line). parseLine index line) (enumerate 0 (split_nl text))"

text \<open>
  \<open>while (stack.length > 1 && stack[stack.length - 1].level >= level) stack.pop()\<close>
\<close>

fun popStack :: "nat \<Rightarrow> stack \<Rightarrow> stack" where
  "popStack level (e # below # rest) =
     (if level \<le> snd e then popStack level (below # rest) else e # below # rest)"
| "popStack level st = st"

text \<open>
  One iteration of the loop over \<open>parsedLines[1..]\<close>. \<open>ids k\<close> is the identifier that the
  \<open>k\<close>-th call of \<open>generateId\<close> (counted from 0) returns; one identifier is drawn per
  allocated node.
\<close>

definition attachLine ::
  "(nat \<Rightarrow> jsstring) \<Rightarrow> store \<times> stack \<Rightarrow> ParsedLine \<Rightarrow> error + store \<times> stack" where
  "attachLine ids s pl =
     (let h = fst s;
          newNode = length h;
          h1 = h @ [\<lparr>o_id = ids (length h), o_text = pl_text pl, o_children = []\<rparr>];
          st1 = popStack (pl_level pl) (snd s)
      in case st1 of
           [] \<Rightarrow> Inl TypeError
         | e # _ \<Rightarrow>
             let parent = fst e;
                 h2 = h1[parent := (h1 ! parent)\<lparr>o_children := o_children (h1 ! parent) @ [newNode]\<rparr>]
             in Inr (h2, (newNode, pl_level pl) # st1))"

fun buildLoop ::
  "(nat \<Rightarrow> jsstring) \<Rightarrow> store \<times> stack \<Rightarrow> ParsedLine list \<Rightarrow> error + store \<times> stack" where
  "buildLoop ids s [] = Inr s"
| "buildLoop ids s (pl # pls) =
     (case attachLine ids s pl of
        Inl e \<Rightarrow> Inl e
      | Inr s' \<Rightarrow> buildLoop ids s' pls)"

text \<open>
  The tree value that a reference denotes. Objects only ever refer to objects allocated
  later; a reference that went backwards or out of the store would not denote a finite tree.
\<close>

function readTree :: "store \<Rightarrow> nat \<Rightarrow> MindmapNode option" where
  "readTree h a =
     (if a < length h \<and> list_all (\<lambda>c. a < c) (o_children (h ! a))
      then map_option (Node (o_id (h ! a)) (o_text (h ! a)))
             (those (map (readTree h) (o_children (h ! a))))
      else None)"
  by pat_completeness auto
termination
  by (relation "measure (\<lambda>(h, a). length h - a)") (auto simp: list_all_iff)

declare readTree.simps [simp del]

definition parseTextToTree :: "(nat \<Rightarrow> jsstring) \<Rightarrow> jsstring \<Rightarrow> error + MindmapNode" where
  "parseTextToTree ids text =
     (let pls = parsedLines text in
      if length pls = 0 then Inr (Node (ids 0) (str ''Empty Mindmap'') [])
      else
        case nth_checked pls 0 of
          Inl e \<Rightarrow> Inl e
        | Inr first \<Rightarrow>
            let root = \<lparr>o_id = ids 0, o_text = pl_text first, o_children = []\<rparr>;
                stack0 = [(0, pl_level first)]
            in (case buildLoop ids ([root], stack0) (drop 1 pls) of
                  Inl e \<Rightarrow> Inl e
                | Inr s \<Rightarrow>
                    (case readTree (fst s) 0 of
                       None \<Rightarrow> Inl NotATree
                     | Some t \<Rightarrow> Inr t)))"

section \<open>Serializer and counters\<close>


fun countNodes :: "MindmapNode \<Rightarrow> nat" where
  "countNodes (Node i t cs) = foldl (\<lambda>count child. count + countNodes child) 1 cs"

section \<open>Layout\<close>

text \<open>
  Numbers of the source are modelled as exact rationals. The layout only adds, subtracts and
  halves, so every coordinate is a dyadic rational, on which the arithmetic of the source is
  exact as long as the value fits its 53-bit significand; rounding beyond that and the
  depth limit of the call stack are outside this model.
\<close>

datatype NodePosition =
  Pos (pos_node: MindmapNode) (pos_x: rat) (pos_y: rat) (pos_width: rat) (pos_height: rat)
      (pos_children: "NodePosition list")

definition NODE_HEIGHT :: rat where "NODE_HEIGHT = 40"
definition NODE_PADDING :: rat where "NODE_PADDING = 20"
definition LEVEL_GAP :: rat where "LEVEL_GAP = 150"
definition SIBLING_GAP :: rat where "SIBLING_GAP = 20"

function getSubtreeHeight :: "NodePosition \<Rightarrow> error + rat" where
  "getSubtreeHeight (Pos n x y w h cs) =
     (if length cs = 0 then Inr h
      else
        case nth_checked cs (length cs - 1) of
          Inl e \<Rightarrow> Inl e
        | Inr lastChild \<Rightarrow>
            (case getSubtreeHeight lastChild of
               Inl e \<Rightarrow> Inl e
             | Inr s \<Rightarrow> Inr (pos_y lastChild + s - y)))"
  by pat_completeness auto
termination
proof (relation "measure size", goal_cases)
  case 1
  show ?case by simp
next
  case (2 n x y w h cs lastChild)
  then have "lastChild \<in> set cs"
    by (auto simp: nth_checked_def split: if_splits)
  then have "size lastChild \<le> size_list size cs"
    by (rule size_list_estimation') simp
  then show ?case by simp
qed

fun layoutNode :: "MindmapNode \<Rightarrow> rat \<Rightarrow> rat \<Rightarrow> error + NodePosition"
  and layoutChildren :: "MindmapNode list \<Rightarrow> rat \<Rightarrow> rat \<Rightarrow> error + NodePosition list" where
  "layoutNode (Node i t cs) x startY =
     (let width = max 100 (of_nat (length t) * 8 + NODE_PADDING * 2);
          height = NODE_HEIGHT
      in case layoutChildren cs (x + LEVEL_GAP) startY of
           Inl e \<Rightarrow> Inl e
         | Inr childPositions \<Rightarrow>
             (if length childPositions > 0 then
                (case nth_checked childPositions 0 of
                   Inl e \<Rightarrow> Inl e
                 | Inr firstChild \<Rightarrow>
                     (case nth_checked childPositions (length childPositions - 1) of
                        Inl e \<Rightarrow> Inl e
                      | Inr lastChild \<Rightarrow>
                          (case getSubtreeHeight lastChild of
                             Inl e \<Rightarrow> Inl e
                           | Inr s \<Rightarrow>
                               let firstChildY = pos_y firstChild;
                                   lastChildBottom = pos_y lastChild + s;
                                   y = (firstChildY + lastChildBottom) / 2 - height / 2
                               in Inr (Pos (Node i t cs) x y width height childPositions))))
              else Inr (Pos (Node i t cs) x startY width height childPositions)))"
| "layoutChildren [] x currentY = Inr []"
| "layoutChildren (child # rest) x currentY =
     (case layoutNode child x currentY of
        Inl e \<Rightarrow> Inl e
      | Inr childPos \<Rightarrow>
          (case getSubtreeHeight childPos of
             Inl e \<Rightarrow> Inl e
           | Inr s \<Rightarrow>
               (case layoutChildren rest x (pos_y childPos + s + SIBLING_GAP) of
                  Inl e \<Rightarrow> Inl e
                | Inr childPositions \<Rightarrow> Inr (childPos # childPositions))))"

definition calculateLayout :: "MindmapNode \<Rightarrow> error + NodePosition" where
  "calculateLayout node = layoutNode node 0 0"

fun flattenPositions :: "NodePosition \<Rightarrow> NodePosition list" where
  "flattenPositions (Pos n x y w h cs) =
     foldl (\<lambda>result child. result @ flattenPositions child) [Pos n x y w h cs] cs"

declare flattenPositions.simps [simp del]








text \<open>The renderer's test for the root node, \<open>const isRoot = x === 0\<close>.\<close>

definition isRoot :: "NodePosition \<Rightarrow> bool" where
  "isRoot position = (pos_x position = 0)"

section \<open>Notions used in the proofs\<close>

subsection \<open>Lines\<close>


definition content :: "ParsedLine \<Rightarrow> jsstring \<times> nat" where
  "content pl = (pl_text pl, pl_level pl)"

definition lineContent :: "jsstring \<Rightarrow> jsstring \<times> nat" where
  "lineContent l = (trim l, length (leadingWhiteSpace l) div 2)"

subsection \<open>Trees without identifiers, and well-formed stores\<close>

text \<open>
  \<open>erase\<close> forgets the identifiers of a tree: two trees have the same shape (the same
  number of children at every node, in the same order) and the same text at every node
  exactly when their erasures are equal. A store is \<open>forward\<close> when every child address
  points to a later object of the store; \<open>shapeAt\<close> is the erased tree found at an address;
  a set of addresses is closed out when no object outside it refers into it.
\<close>

datatype shape = Shape (stext: jsstring) (skids: "shape list")

fun erase :: "MindmapNode \<Rightarrow> shape" where
  "erase (Node i t cs) = Shape t (map erase cs)"

definition forward :: "store \<Rightarrow> bool" where
  "forward h = (\<forall>a<length h. \<forall>c\<in>set (o_children (h ! a)). a < c \<and> c < length h)"

definition shapeAt :: "store \<Rightarrow> nat \<Rightarrow> shape" where
  "shapeAt h a = (case readTree h a of Some t \<Rightarrow> erase t | None \<Rightarrow> Shape [] [])"

definition closedOut :: "store \<Rightarrow> nat set \<Rightarrow> bool" where
  "closedOut h S = (\<forall>b<length h. b \<notin> S \<longrightarrow> (\<forall>c\<in>set (o_children (h ! b)). c \<notin> S))"

subsection \<open>The ancestor stack as a zipper\<close>

text \<open>
  A functional account of the loop, on erased trees. A frame is an open ancestor with the
  children attached to it so far, except the one that is still open, which is the frame above
  it. Popping a frame closes its node and hands it to the frame below. \<open>rel\<close> and \<open>inv\<close>
  relate a store and a stack of addresses to the zipper they represent.
\<close>

datatype frame = Frame (ftext: jsstring) (flevel: nat) (fkids: "shape list")

definition leaf :: "frame \<Rightarrow> shape" where
  "leaf f = Shape (ftext f) (fkids f)"

definition absorb :: "shape \<Rightarrow> frame \<Rightarrow> frame" where
  "absorb t g = Frame (ftext g) (flevel g) (fkids g @ [t])"

fun zpop :: "nat \<Rightarrow> frame list \<Rightarrow> frame list" where
  "zpop l (f # g # z) = (if l \<le> flevel f then zpop l (absorb (leaf f) g # z) else f # g # z)"
| "zpop l z = z"

definition zstep :: "frame list \<Rightarrow> jsstring \<times> nat \<Rightarrow> frame list" where
  "zstep z c = Frame (fst c) (snd c) [] # zpop (snd c) z"

fun plug :: "shape \<Rightarrow> frame list \<Rightarrow> shape" where
  "plug t [] = t"
| "plug t (g # z) = plug (leaf (absorb t g)) z"

fun zclose :: "frame list \<Rightarrow> shape" where
  "zclose [] = Shape [] []"
| "zclose (f # z) = plug (leaf f) z"

fun rel :: "store \<Rightarrow> nat set \<Rightarrow> nat list \<Rightarrow> stack \<Rightarrow> frame list \<Rightarrow> bool" where
  "rel h S us [] [] = True"
| "rel h S us ((b, m) # st) (g # z) =
     (b < length h \<and> flevel g = m \<and> ftext g = o_text (h ! b) \<and>
      (\<exists>ks. o_children (h ! b) = ks @ us \<and> fkids g = map (shapeAt h) ks \<and> set ks \<inter> S = {}) \<and>
      rel h S [b] st z)"
| "rel h S us _ _ = False"

definition inv :: "store \<Rightarrow> stack \<Rightarrow> frame list \<Rightarrow> bool" where
  "inv h st z =
     (forward h \<and> st \<noteq> [] \<and> fst (last st) = 0 \<and> distinct (map fst st) \<and>
      closedOut h (fst ` set st) \<and> rel h (fst ` set st) [] st z)"

subsection \<open>Parsing by zipper, document order, serialized form\<close>

text \<open>
  \<open>zparse\<close> runs the zipper over the contents of the parsed lines. \<open>ptexts\<close> lists the
  texts of a tree in document order, \<open>zflat\<close> those of an open zipper, and \<open>flat\<close> the
  lines (text and depth) that a tree is written as.
\<close>

definition zparse :: "(jsstring \<times> nat) list \<Rightarrow> shape" where
  "zparse cs = (case cs of [] \<Rightarrow> Shape (str ''Empty Mindmap'') []
                | c # cs' \<Rightarrow> zclose (foldl zstep [Frame (fst c) (snd c) []] cs'))"

fun ptexts :: "shape \<Rightarrow> jsstring list" where
  "ptexts (Shape x ks) = x # concat (map ptexts ks)"

fun zflat :: "frame list \<Rightarrow> jsstring list" where
  "zflat [] = []"
| "zflat (f # z) = zflat z @ ptexts (leaf f)"


subsection \<open>Lines of the serialized text and of the input\<close>



definition nonBlank :: "jsstring \<Rightarrow> bool" where
  "nonBlank line = (trim line \<noteq> [])"

definition nonBlankLines :: "jsstring \<Rightarrow> jsstring list" where
  "nonBlankLines text = filter nonBlank (split_nl text)"

subsection \<open>Values computed by the layout\<close>

text \<open>
  The layout functions never fail (proved below), so their results can be named:
  \<open>sth\<close> for the subtree height, \<open>bottom\<close> for the lower edge \<open>y + subtree height\<close>,
  \<open>lay\<close> and \<open>layC\<close> for the positions of a node and of a list of children.
\<close>

definition sth :: "NodePosition \<Rightarrow> rat" where
  "sth p = (case getSubtreeHeight p of Inr s \<Rightarrow> s | Inl e \<Rightarrow> 0)"

definition bottom :: "NodePosition \<Rightarrow> rat" where
  "bottom p = pos_y p + sth p"

definition nodeWidth :: "jsstring \<Rightarrow> rat" where
  "nodeWidth t = max 100 (of_nat (length t) * 8 + NODE_PADDING * 2)"

definition lay :: "MindmapNode \<Rightarrow> rat \<Rightarrow> rat \<Rightarrow> NodePosition" where
  "lay n x s = projr (layoutNode n x s)"

definition layC :: "MindmapNode list \<Rightarrow> rat \<Rightarrow> rat \<Rightarrow> NodePosition list" where
  "layC cs x s = projr (layoutChildren cs x s)"

subsection \<open>Depth and vertical extent\<close>

text \<open>
  \<open>withDepth\<close> pairs every position of a tree with its edge-depth, in the order of
  \<open>flattenPositions\<close>. The top of a subtree is the least \<open>y\<close> of its positions. A subtree
  \<open>spans\<close> from \<open>s\<close> when no position lies above \<open>s\<close>, one lies at \<open>s\<close>, and the lower
  edge is at least one node height below \<open>s\<close>.
\<close>

fun withDepth :: "nat \<Rightarrow> NodePosition \<Rightarrow> (nat \<times> NodePosition) list" where
  "withDepth d (Pos n x y w h cs) = (d, Pos n x y w h cs) # concat (map (withDepth (Suc d)) cs)"

definition subtreeTop :: "NodePosition \<Rightarrow> rat" where
  "subtreeTop p = Min (pos_y ` set (flattenPositions p))"

definition spans :: "rat \<Rightarrow> NodePosition \<Rightarrow> bool" where
  "spans s p =
     ((\<forall>q\<in>set (flattenPositions p). s \<le> pos_y q) \<and>
      (\<exists>q\<in>set (flattenPositions p). pos_y q = s) \<and>
      s + NODE_HEIGHT \<le> bottom p)"

subsection \<open>Nodes of a tree and sample inputs\<close>

text \<open>
  \<open>nodes\<close> lists the nodes of a tree in document order. The remaining definitions are
  concrete inputs on which the theorems below are instantiated: two identifier supplies, a
  five-node tree with its layout, and a parser state in the middle of a run.
\<close>

definition seqIds :: "nat \<Rightarrow> jsstring" where
  "seqIds k = [of_nat k]"

definition zeroIds :: "nat \<Rightarrow> jsstring" where
  "zeroIds k = []"


definition sampleTree :: MindmapNode where
  "sampleTree =
     Node (str ''n0'') (str ''a'')
       [Node (str ''n1'') (str ''b'') [],
        Node (str ''n2'') (str ''c'')
          [Node (str ''n3'') (str ''d'') [], Node (str ''n4'') (str ''e'') []]]"

definition sampleLayout :: NodePosition where
  "sampleLayout =
     Pos sampleTree 0 60 100 40
       [Pos (Node (str ''n1'') (str ''b'') []) 150 0 100 40 [],
        Pos (Node (str ''n2'') (str ''c'')
               [Node (str ''n3'') (str ''d'') [], Node (str ''n4'') (str ''e'') []]) 150 90 100 40
          [Pos (Node (str ''n3'') (str ''d'') []) 300 60 100 40 [],
           Pos (Node (str ''n4'') (str ''e'') []) 300 120 100 40 []]]"

definition sampleStore :: store where
  "sampleStore =
     [\<lparr>o_id = [0], o_text = str ''A'', o_children = [1]\<rparr>,
      \<lparr>o_id = [1], o_text = str ''B'', o_children = [2]\<rparr>,
      \<lparr>o_id = [2], o_text = str ''C'', o_children = []\<rparr>]"

definition sampleStack :: stack where
  "sampleStack = [(2, 3), (1, 1), (0, 2)]"

definition sampleLine :: ParsedLine where
  "sampleLine = \<lparr>pl_text = str ''D'', pl_level = 1, pl_lineNumber = 4\<rparr>"

section \<open>Lemmas\<close>

subsection \<open>Lines and white space\<close>














lemma isWhiteSpace_LF: "isWhiteSpace LF"
  by (simp add: isWhiteSpace_def LF_def)

lemma content_map_filter:
  "map content (List.map_filter (\<lambda>(index, line). parseLine index line) (enumerate n ls))
     = map lineContent (filter (\<lambda>l. trim l \<noteq> []) ls)"
  by (induction ls arbitrary: n)
     (auto simp: map_filter_simps parseLine_def Let_def content_def lineContent_def)

lemma content_parsedLines:
  "map content (parsedLines s) = map lineContent (filter (\<lambda>l. trim l \<noteq> []) (split_nl s))"
  by (simp add: parsedLines_def content_map_filter)

subsection \<open>Reading the store\<close>

lemma forwardD: "forward h \<Longrightarrow> a < length h \<Longrightarrow> c \<in> set (o_children (h ! a)) \<Longrightarrow> a < c \<and> c < length h"
  unfolding forward_def by blast

lemma those_map_Some:
  "\<forall>x\<in>set xs. \<exists>y. f x = Some y \<Longrightarrow> those (map f xs) = Some (map (\<lambda>x. the (f x)) xs)"
  by (induction xs) auto

lemma readTree_total:
  "forward h \<Longrightarrow> a < length h \<Longrightarrow>
     \<exists>t. readTree h a = Some t \<and> erase t = Shape (o_text (h ! a)) (map (shapeAt h) (o_children (h ! a)))"
proof (induction h a rule: readTree.induct)
  case (1 h a)
  let ?cs = "o_children (h ! a)"
  have fw: "a < c \<and> c < length h" if "c \<in> set ?cs" for c
    using forwardD [OF "1.prems" that] .
  have guard: "a < length h \<and> list_all (\<lambda>c. a < c) ?cs"
    using "1.prems"(2) fw by (simp add: list_all_iff)
  have ih: "\<exists>t. readTree h c = Some t" if "c \<in> set ?cs" for c
  proof -
    have "c < length h" using fw [OF that] by simp
    from "1.IH" [OF guard that "1.prems"(1) this] show ?thesis by (elim exE conjE) (rule exI)
  qed
  have th: "those (map (readTree h) ?cs) = Some (map (\<lambda>c. the (readTree h c)) ?cs)"
    using ih by (intro those_map_Some) blast
  have "shapeAt h c = erase (the (readTree h c))" if "c \<in> set ?cs" for c
    using ih [OF that] by (auto simp: shapeAt_def)
  then have "map (\<lambda>c. erase (the (readTree h c))) ?cs = map (shapeAt h) ?cs"
    by simp
  then show ?case
    using guard th by (subst readTree.simps) (simp add: comp_def)
qed

lemma shapeAt_unfold:
  "forward h \<Longrightarrow> a < length h \<Longrightarrow>
     shapeAt h a = Shape (o_text (h ! a)) (map (shapeAt h) (o_children (h ! a)))"
  using readTree_total [of h a] by (auto simp: shapeAt_def)

lemma readTree_frame:
  assumes fw: "forward h" and len: "length h \<le> length h'"
    and same: "\<And>b. b < length h \<Longrightarrow> b \<notin> S \<Longrightarrow> h' ! b = h ! b"
    and cl: "closedOut h S"
  shows "a < length h \<Longrightarrow> a \<notin> S \<Longrightarrow> readTree h' a = readTree h a"
proof (induction "length h - a" arbitrary: a rule: less_induct)
  case less
  let ?cs = "o_children (h ! a)"
  have e: "h' ! a = h ! a"
    using same less.prems by blast
  have a': "a < length h'"
    using len less.prems(1) by simp
  have kids: "readTree h' c = readTree h c" if "c \<in> set ?cs" for c
  proof -
    have 1: "a < c \<and> c < length h"
      using forwardD [OF fw less.prems(1) that] .
    have 2: "c \<notin> S"
      using cl less.prems that unfolding closedOut_def by blast
    have 3: "length h - c < length h - a"
      using 1 by arith
    show ?thesis
      using less.hyps [OF 3] 1 2 by blast
  qed
  have m: "map (readTree h') ?cs = map (readTree h) ?cs"
    using kids by simp
  show ?case
    by (simp add: readTree.simps [of h' a] readTree.simps [of h a] e a' less.prems(1) m)
qed

lemma shapeAt_frame:
  assumes "forward h" "length h \<le> length h'"
    and "\<And>b. b < length h \<Longrightarrow> b \<notin> S \<Longrightarrow> h' ! b = h ! b"
    and "closedOut h S" "a < length h" "a \<notin> S"
  shows "shapeAt h' a = shapeAt h a"
  using readTree_frame [OF assms] by (simp add: shapeAt_def)

subsection \<open>The ancestor stack as a zipper\<close>

lemma rel_mono: "rel h S us st z \<Longrightarrow> S' \<subseteq> S \<Longrightarrow> rel h S' us st z"
proof (induction h S us st z rule: rel.induct)
  case (2 h S us b m st g z)
  from "2.prems"(1) obtain ks where ks: "o_children (h ! b) = ks @ us"
    "fkids g = map (shapeAt h) ks" "set ks \<inter> S = {}"
    by auto
  have "set ks \<inter> S' = {}" using ks(3) "2.prems"(2) by blast
  with ks "2.prems" "2.IH" show ?case by auto
qed auto

lemma rel_Cons_elim:
  assumes "rel h S us (e # st) z"
  obtains g z' ks where "z = g # z'" "fst e < length h" "flevel g = snd e"
    "ftext g = o_text (h ! fst e)" "o_children (h ! fst e) = ks @ us"
    "fkids g = map (shapeAt h) ks" "set ks \<inter> S = {}" "rel h S [fst e] st z'"
  using assms by (cases e; cases z) auto

lemma rel_Nil_iff: "rel h S us [] z \<longleftrightarrow> z = []"
  by (cases z) auto

lemma rel_bound: "rel h S us st z \<Longrightarrow> e \<in> set st \<Longrightarrow> fst e < length h"
  by (induction h S us st z rule: rel.induct) auto

lemma inv_pop_one:
  assumes "inv h (e # e' # st) z"
  obtains f g z' where "z = f # g # z'" "flevel f = snd e" "inv h (e' # st) (absorb (leaf f) g # z')"
proof -
  let ?S = "fst ` set (e # e' # st)" and ?S' = "fst ` set (e' # st)"
  from assms have fw: "forward h" and di: "distinct (map fst (e # e' # st))"
    and cl: "closedOut h ?S" and r: "rel h ?S [] (e # e' # st) z"
    and la: "fst (last (e # e' # st)) = 0"
    by (simp_all add: inv_def)
  from r obtain f z1 ks where f: "z = f # z1" "fst e < length h" "flevel f = snd e"
    "ftext f = o_text (h ! fst e)" "o_children (h ! fst e) = ks @ []"
    "fkids f = map (shapeAt h) ks" "set ks \<inter> ?S = {}" "rel h ?S [fst e] (e' # st) z1"
    by (rule rel_Cons_elim)
  from f(8) obtain g z' ks' where g: "z1 = g # z'" "fst e' < length h" "flevel g = snd e'"
    "ftext g = o_text (h ! fst e')" "o_children (h ! fst e') = ks' @ [fst e]"
    "fkids g = map (shapeAt h) ks'" "set ks' \<inter> ?S = {}" "rel h ?S [fst e'] st z'"
    by (rule rel_Cons_elim)
  have sub: "?S' \<subseteq> ?S" by auto
  have notin: "fst e \<notin> ?S'" using di by auto
  have sh: "shapeAt h (fst e) = leaf f"
    using shapeAt_unfold [OF fw f(2)] f(4,5,6) by (simp add: leaf_def)
  have r': "rel h ?S' [] (e' # st) (absorb (leaf f) g # z')"
  proof -
    have "o_children (h ! fst e') = (ks' @ [fst e]) @ []" using g(5) by simp
    moreover have "fkids (absorb (leaf f) g) = map (shapeAt h) (ks' @ [fst e])"
      using g(6) sh by (simp add: absorb_def)
    moreover have "set (ks' @ [fst e]) \<inter> ?S' = {}"
      using g(7) notin by auto
    moreover have "rel h ?S' [fst e'] st z'"
      using rel_mono [OF g(8) sub] .
    ultimately show ?thesis
      using g(2,3,4) by (cases e') (auto simp: absorb_def)
  qed
  have cl': "closedOut h ?S'"
    unfolding closedOut_def
  proof (intro allI impI ballI)
    fix b c assume b: "b < length h" "b \<notin> ?S'" and c: "c \<in> set (o_children (h ! b))"
    show "c \<notin> ?S'"
    proof (cases "b = fst e")
      case True
      then have "c \<in> set ks" using c f(5) by simp
      then have "c \<notin> ?S" using f(7) by blast
      then show ?thesis using sub by blast
    next
      case False
      then have "b \<notin> ?S" using b(2) by auto
      then have "c \<notin> ?S" using cl b(1) c unfolding closedOut_def by blast
      then show ?thesis using sub by blast
    qed
  qed
  have "inv h (e' # st) (absorb (leaf f) g # z')"
    using fw di cl' r' la by (simp add: inv_def)
  then show ?thesis using that f(1,3) g(1) by blast
qed

lemma inv_popStack: "inv h st z \<Longrightarrow> inv h (popStack l st) (zpop l z)"
proof (induction l st arbitrary: z rule: popStack.induct, goal_cases)
  case (1 level e below rest z)
  from 1(2) obtain f g z' where z: "z = f # g # z'" "flevel f = snd e"
    "inv h (below # rest) (absorb (leaf f) g # z')"
    by (rule inv_pop_one)
  show ?case
  proof (cases "level \<le> snd e")
    case True
    then show ?thesis using 1(1) [OF True z(3)] z(1,2) by simp
  next
    case False
    then show ?thesis using 1(2) z(1,2) by simp
  qed
next
  case (2 level z)
  then show ?case by (simp add: inv_def)
next
  case (3 level v z)
  then obtain S where "rel h S [] [v] z" by (auto simp: inv_def)
  then obtain g where "z = [g]"
    by (cases v; cases z) (auto simp: rel_Nil_iff)
  with 3 show ?case by simp
qed

lemma rel_transfer:
  assumes fw: "forward h" and len: "length h \<le> length h2"
    and sh: "\<And>c. c < length h \<Longrightarrow> c \<notin> S \<Longrightarrow> shapeAt h2 c = shapeAt h c"
  shows "rel h S us st z \<Longrightarrow> (\<And>e. e \<in> set st \<Longrightarrow> h2 ! fst e = h ! fst e) \<Longrightarrow>
           rel h2 (insert (length h) S) us st z"
proof (induction st arbitrary: us z)
  case Nil
  then show ?case by (simp add: rel_Nil_iff)
next
  case (Cons e st)
  from Cons.prems(1) obtain g z' ks where g: "z = g # z'" "fst e < length h" "flevel g = snd e"
    "ftext g = o_text (h ! fst e)" "o_children (h ! fst e) = ks @ us"
    "fkids g = map (shapeAt h) ks" "set ks \<inter> S = {}" "rel h S [fst e] st z'"
    by (rule rel_Cons_elim)
  have same: "h2 ! fst e = h ! fst e" using Cons.prems(2) by simp
  have kb: "c < length h \<and> c \<notin> S" if "c \<in> set ks" for c
  proof -
    have "c \<in> set (o_children (h ! fst e))" using that g(5) by simp
    then have "c < length h" using forwardD [OF fw g(2)] by blast
    moreover have "c \<notin> S" using that g(7) by blast
    ultimately show ?thesis by simp
  qed
  have 1: "fkids g = map (shapeAt h2) ks"
    using g(6) kb sh by simp
  have 2: "set ks \<inter> insert (length h) S = {}"
    using kb by auto
  have 3: "rel h2 (insert (length h) S) [fst e] st z'"
    using Cons.IH [OF g(8)] Cons.prems(2) by simp
  have 4: "fst e < length h2" using g(2) len by simp
  show ?case
    using g(1,3,4,5) same 1 2 3 4 by (cases e) auto
qed

lemma inv_push:
  assumes i: "inv h (e # st) z"
    and new: "new = \<lparr>o_id = i, o_text = x, o_children = []\<rparr>"
    and h1: "h1 = h @ [new]"
    and h2: "h2 = h1[fst e := (h1 ! fst e)\<lparr>o_children := o_children (h1 ! fst e) @ [length h]\<rparr>]"
  shows "inv h2 ((length h, l) # e # st) (Frame x l [] # z)"
proof -
  let ?S = "fst ` set (e # st)" and ?n = "length h" and ?p = "fst e"
  from i have fw: "forward h" and di: "distinct (map fst (e # st))"
    and cl: "closedOut h ?S" and r: "rel h ?S [] (e # st) z"
    and la: "fst (last (e # st)) = 0"
    by (simp_all add: inv_def)
  from r obtain f z' ks where f: "z = f # z'" "?p < length h" "flevel f = snd e"
    "ftext f = o_text (h ! ?p)" "o_children (h ! ?p) = ks @ []"
    "fkids f = map (shapeAt h) ks" "set ks \<inter> ?S = {}" "rel h ?S [?p] st z'"
    by (rule rel_Cons_elim)
  have len2: "length h2 = Suc ?n" by (simp add: h2 h1)
  have at_n: "h2 ! ?n = new" using f(2) by (simp add: h2 h1)
  have at_p: "h2 ! ?p = (h ! ?p)\<lparr>o_children := o_children (h ! ?p) @ [?n]\<rparr>"
    using f(2) by (simp add: h2 h1 nth_append)
  have at_b: "h2 ! b = h ! b" if "b < ?n" "b \<noteq> ?p" for b
    using that by (simp add: h2 h1 nth_append)
  have ch: "set (o_children (h2 ! a)) \<subseteq> set (o_children (h ! a)) \<union> (if a = ?p then {?n} else {})"
    if "a < ?n" for a
    using that at_p at_b [of a] by (cases "a = ?p") auto
  have fw2: "forward h2"
    unfolding forward_def
  proof (intro allI impI ballI)
    fix a c assume a: "a < length h2" and c: "c \<in> set (o_children (h2 ! a))"
    show "a < c \<and> c < length h2"
    proof (cases "a = ?n")
      case True
      then show ?thesis using c at_n new by simp
    next
      case False
      then have an: "a < ?n" using a len2 by simp
      show ?thesis
      proof (cases "c = ?n")
        case True
        then show ?thesis using an len2 by simp
      next
        case False
        then have "c \<in> set (o_children (h ! a))" using ch [OF an] c by (auto split: if_splits)
        then have "a < c \<and> c < ?n" using forwardD [OF fw an] by blast
        then show ?thesis using len2 by simp
      qed
    qed
  qed
  have bound: "fst e' < ?n" if "e' \<in> set (e # st)" for e'
    using rel_bound [OF r that] .
  have n_notin: "?n \<notin> ?S"
  proof
    assume "?n \<in> ?S"
    then obtain e' where "?n = fst e'" "e' \<in> set (e # st)" by (rule imageE)
    then show False using bound [of e'] by simp
  qed
  have di2: "distinct (map fst ((?n, l) # e # st))"
    using di n_notin by simp
  have same: "\<And>b. b < length h \<Longrightarrow> b \<notin> ?S \<Longrightarrow> h2 ! b = h ! b"
    using at_b by auto
  have sh: "shapeAt h2 c = shapeAt h c" if "c < length h" "c \<notin> ?S" for c
    by (rule shapeAt_frame [OF fw _ same cl that]) (simp_all add: len2)
  have kb: "c < ?n \<and> c \<notin> ?S" if "c \<in> set ks" for c
  proof -
    have "c \<in> set (o_children (h ! ?p))" using that f(5) by simp
    then have "c < ?n" using forwardD [OF fw f(2)] by blast
    moreover have "c \<notin> ?S" using that f(7) by blast
    ultimately show ?thesis by simp
  qed
  let ?S2 = "fst ` set ((?n, l) # e # st)"
  have S2: "?S2 = insert ?n ?S" by simp
  have cl2: "closedOut h2 ?S2"
    unfolding closedOut_def
  proof (intro allI impI ballI)
    fix b c assume b: "b < length h2" "b \<notin> ?S2" and c: "c \<in> set (o_children (h2 ! b))"
    have bn: "b < ?n" "b \<noteq> ?p" "b \<notin> ?S" using b len2 by auto
    then have "c \<in> set (o_children (h ! b))" using c at_b by simp
    then have "c \<notin> ?S" "c < ?n"
      using cl bn forwardD [OF fw bn(1)] unfolding closedOut_def by blast+
    then show "c \<notin> ?S2" by auto
  qed
  have notp: "h2 ! fst e' = h ! fst e'" if "e' \<in> set st" for e'
  proof -
    have "fst e' \<in> fst ` set st" using that by (rule imageI)
    moreover have "?p \<notin> fst ` set st" using di by simp
    ultimately have "fst e' \<noteq> ?p" by metis
    then show ?thesis using at_b bound [of e'] that by simp
  qed
  have r3: "rel h2 (insert ?n ?S) [?p] st z'"
    using rel_transfer [OF fw _ sh f(8) notp] len2 by simp
  have r2: "rel h2 (insert ?n ?S) [?n] (e # st) (f # z')"
  proof -
    have "o_children (h2 ! ?p) = ks @ [?n]" using at_p f(5) by simp
    moreover have "fkids f = map (shapeAt h2) ks" using f(6) kb sh by simp
    moreover have "set ks \<inter> insert ?n ?S = {}" using kb by auto
    moreover have "ftext f = o_text (h2 ! ?p)" using f(4) at_p by simp
    moreover have "?p < length h2" using f(2) len2 by simp
    ultimately show ?thesis using r3 f(3) by (cases e) auto
  qed
  have r1: "rel h2 ?S2 [] ((?n, l) # e # st) (Frame x l [] # z)"
    using r2 at_n new len2 f(1) by (simp only: S2) simp
  show ?thesis
    unfolding inv_def using fw2 di2 cl2 r1 la by simp
qed

lemma inv_attachLine:
  assumes "inv h st z"
  shows "\<exists>h' st'. attachLine ids (h, st) pl = Inr (h', st') \<and> inv h' st' (zstep z (content pl))"
proof -
  have p: "inv h (popStack (pl_level pl) st) (zpop (pl_level pl) z)"
    using assms by (rule inv_popStack)
  then obtain e st1 where st1: "popStack (pl_level pl) st = e # st1"
    by (cases "popStack (pl_level pl) st") (auto simp: inv_def)
  have "inv ((h @ [\<lparr>o_id = ids (length h), o_text = pl_text pl, o_children = []\<rparr>])
          [fst e := ((h @ [\<lparr>o_id = ids (length h), o_text = pl_text pl, o_children = []\<rparr>]) ! fst e)
             \<lparr>o_children := o_children ((h @ [\<lparr>o_id = ids (length h), o_text = pl_text pl, o_children = []\<rparr>]) ! fst e) @ [length h]\<rparr>])
          ((length h, pl_level pl) # e # st1) (Frame (pl_text pl) (pl_level pl) [] # zpop (pl_level pl) z)"
    using p unfolding st1 by (rule inv_push) (rule refl)+
  then show ?thesis
    by (simp add: attachLine_def Let_def st1 zstep_def content_def)
qed

lemma inv_buildLoop:
  "inv h st z \<Longrightarrow>
     \<exists>h' st'. buildLoop ids (h, st) pls = Inr (h', st') \<and> inv h' st' (foldl zstep z (map content pls))"
proof (induction pls arbitrary: h st z)
  case Nil
  then show ?case by simp
next
  case (Cons pl pls)
  from inv_attachLine [OF Cons.prems, of ids pl] obtain h1 st1 where
    a: "attachLine ids (h, st) pl = Inr (h1, st1)" "inv h1 st1 (zstep z (content pl))"
    by blast
  from Cons.IH [OF a(2)] a(1) show ?case by simp
qed

lemma rel_plug:
  "rel h S [u] st z \<Longrightarrow> st \<noteq> [] \<Longrightarrow> forward h \<Longrightarrow>
     shapeAt h (fst (last st)) = plug (shapeAt h u) z"
proof (induction st arbitrary: u z)
  case Nil
  then show ?case by simp
next
  case (Cons e st)
  from Cons.prems(1) obtain g z' ks where g: "z = g # z'" "fst e < length h" "flevel g = snd e"
    "ftext g = o_text (h ! fst e)" "o_children (h ! fst e) = ks @ [u]"
    "fkids g = map (shapeAt h) ks" "rel h S [fst e] st z'"
    by (rule rel_Cons_elim)
  have sh: "shapeAt h (fst e) = leaf (absorb (shapeAt h u) g)"
    using shapeAt_unfold [OF Cons.prems(3) g(2)] g(4,5,6) by (simp add: leaf_def absorb_def)
  show ?case
  proof (cases "st = []")
    case True
    then have "z' = []" using g(7) by (simp add: rel_Nil_iff)
    then show ?thesis using True sh g(1) by simp
  next
    case False
    then show ?thesis using Cons.IH [OF g(7) False Cons.prems(3)] sh g(1) by simp
  qed
qed

lemma inv_result:
  assumes "inv h st z"
  shows "\<exists>t. readTree h 0 = Some t \<and> erase t = zclose z"
proof -
  from assms have fw: "forward h" and ne: "st \<noteq> []" and la: "fst (last st) = 0"
    and r: "rel h (fst ` set st) [] st z"
    by (simp_all add: inv_def)
  from ne obtain e st' where st: "st = e # st'" by (cases st) auto
  from r [unfolded st] obtain f z' ks where f: "z = f # z'" "fst e < length h"
    "ftext f = o_text (h ! fst e)" "o_children (h ! fst e) = ks @ []"
    "fkids f = map (shapeAt h) ks" "rel h (fst ` set (e # st')) [fst e] st' z'"
    by (rule rel_Cons_elim)
  have top: "shapeAt h (fst e) = leaf f"
    using shapeAt_unfold [OF fw f(2)] f(3,4,5) by (simp add: leaf_def)
  have root: "shapeAt h 0 = zclose z"
  proof (cases "st' = []")
    case True
    then have "z' = []" using f(6) by (simp add: rel_Nil_iff)
    then show ?thesis using True top la st f(1) by simp
  next
    case False
    then show ?thesis using rel_plug [OF f(6) False fw] top la st f(1) by simp
  qed
  have "0 < length h" using rel_bound [OF r, of "last st"] ne la by simp
  from readTree_total [OF fw this] shapeAt_unfold [OF fw this] root show ?thesis
    by auto
qed

lemma inv_initial:
  "inv [\<lparr>o_id = i, o_text = x, o_children = []\<rparr>] [(0, l)] [Frame x l []]"
  by (simp add: inv_def forward_def closedOut_def)

lemma parse_refines:
  "\<exists>t. parseTextToTree ids s = Inr t \<and> erase t = zparse (map content (parsedLines s))"
proof (cases "parsedLines s")
  case Nil
  then show ?thesis by (simp add: parseTextToTree_def zparse_def)
next
  case (Cons pl pls)
  let ?root = "\<lparr>o_id = ids 0, o_text = pl_text pl, o_children = []\<rparr>"
  from inv_buildLoop [OF inv_initial [of "ids 0" "pl_text pl" "pl_level pl"], of ids pls]
  obtain h' st' where b: "buildLoop ids ([?root], [(0, pl_level pl)]) pls = Inr (h', st')"
    "inv h' st' (foldl zstep [Frame (pl_text pl) (pl_level pl) []] (map content pls))"
    by blast
  from inv_result [OF b(2)] obtain t where t: "readTree h' 0 = Some t"
    "erase t = zclose (foldl zstep [Frame (pl_text pl) (pl_level pl) []] (map content pls))"
    by blast
  show ?thesis
    using Cons b(1) t by (simp add: parseTextToTree_def zparse_def nth_checked_def content_def)
qed

subsection \<open>The nodes in document order\<close>

lemma ptexts_plug: "ptexts (plug t z) = zflat z @ ptexts t"
  by (induction z arbitrary: t) (auto simp: leaf_def absorb_def)

lemma ptexts_zclose: "z \<noteq> [] \<Longrightarrow> ptexts (zclose z) = zflat z"
  by (cases z) (auto simp: ptexts_plug)

lemma zflat_zpop: "zflat (zpop l z) = zflat z"
  by (induction l z rule: zpop.induct) (auto simp: leaf_def absorb_def)

lemma zpop_nonempty: "z \<noteq> [] \<Longrightarrow> zpop l z \<noteq> []"
  by (induction l z rule: zpop.induct) auto

lemma zflat_zstep: "zflat (zstep z c) = zflat z @ [fst c]"
  by (simp add: zstep_def zflat_zpop leaf_def)

lemma zflat_run: "zflat (foldl zstep z cs) = zflat z @ map fst cs"
  by (induction cs arbitrary: z) (auto simp: zflat_zstep)

lemma run_nonempty: "z \<noteq> [] \<Longrightarrow> foldl zstep z cs \<noteq> []"
  by (induction cs arbitrary: z) (auto simp: zstep_def)

lemma ptexts_zparse: "cs \<noteq> [] \<Longrightarrow> ptexts (zparse cs) = map fst cs"
  by (cases cs) (auto simp: zparse_def ptexts_zclose run_nonempty zflat_run leaf_def)

subsection \<open>Parsing a serialized tree\<close>










subsection \<open>The serialized text, line by line\<close>











subsection \<open>What the parser returns\<close>

lemma texts_parsedLines: "map pl_text (parsedLines s) = map trim (nonBlankLines s)"
proof -
  have "map pl_text (parsedLines s) = map fst (map content (parsedLines s))"
    by (simp add: content_def comp_def)
  moreover have "nonBlank = (\<lambda>l. trim l \<noteq> [])"
    by (simp add: fun_eq_iff nonBlank_def)
  ultimately show ?thesis
    by (simp add: content_parsedLines nonBlankLines_def lineContent_def comp_def)
qed

lemma length_parsedLines: "length (parsedLines s) = length (nonBlankLines s)"
  using arg_cong [OF texts_parsedLines, where f = length] by simp


lemma parse_texts:
  assumes "parseTextToTree ids s = Inr t"
  shows "ptexts (erase t) = (if nonBlankLines s = [] then [str ''Empty Mindmap'']
                             else map trim (nonBlankLines s))"
proof -
  from parse_refines [of ids s] assms
  have e: "erase t = zparse (map content (parsedLines s))" by auto
  show ?thesis
  proof (cases "nonBlankLines s = []")
    case True
    then have "parsedLines s = []" using length_parsedLines [of s] by simp
    then show ?thesis using True e by (simp add: zparse_def)
  next
    case False
    then have "map content (parsedLines s) \<noteq> []" using length_parsedLines [of s] by auto
    from ptexts_zparse [OF this] show ?thesis
      using False e texts_parsedLines [of s] by (simp add: content_def comp_def)
  qed
qed




lemma foldl_count:
  "foldl (\<lambda>count child. count + f child) (a::nat) cs = a + sum_list (map f cs)"
  by (induction cs arbitrary: a) auto

lemma countNodes_ptexts: "countNodes t = length (ptexts (erase t))"
proof (induction t)
  case (Node i x cs)
  have "map countNodes cs = map (\<lambda>c. length (ptexts (erase c))) cs"
    using Node.IH by simp
  then have "sum_list (map countNodes cs) = sum_list (map (\<lambda>c. length (ptexts (erase c))) cs)"
    by (rule arg_cong)
  then show ?case
    by (simp add: foldl_count length_concat comp_def)
qed

subsection \<open>Layout: the values computed\<close>

lemma nth_checked_last: "cs \<noteq> [] \<Longrightarrow> nth_checked cs (length cs - Suc 0) = Inr (last cs)"
  by (simp add: nth_checked_def last_conv_nth)

lemma nth_checked_hd: "cs \<noteq> [] \<Longrightarrow> nth_checked cs 0 = Inr (hd cs)"
  by (simp add: nth_checked_def hd_conv_nth)

lemma getSubtreeHeight_ex: "\<exists>s. getSubtreeHeight p = Inr s"
proof (induction p rule: getSubtreeHeight.induct)
  case (1 n x y w h cs)
  show ?case
  proof (cases "cs = []")
    case True
    then show ?thesis by simp
  next
    case False
    then have l: "nth_checked cs (length cs - 1) = Inr (last cs)"
      using nth_checked_last by simp
    have "\<exists>s. getSubtreeHeight (last cs) = Inr s"
      using "1.IH" [OF _ l] False by simp
    then obtain s where "getSubtreeHeight (last cs) = Inr s" ..
    then show ?thesis using False l by simp
  qed
qed

lemma getSubtreeHeight_total: "getSubtreeHeight p = Inr (sth p)"
  using getSubtreeHeight_ex [of p] by (auto simp: sth_def)

lemma sth_leaf: "sth (Pos n x y w h []) = h"
  by (simp add: sth_def)

lemma sth_node: "cs \<noteq> [] \<Longrightarrow> sth (Pos n x y w h cs) = pos_y (last cs) + sth (last cs) - y"
proof -
  assume ne: "cs \<noteq> []"
  have "getSubtreeHeight (Pos n x y w h cs) = Inr (pos_y (last cs) + sth (last cs) - y)"
    using ne by (simp add: nth_checked_last getSubtreeHeight_total [of "last cs"])
  then show ?thesis by (simp add: sth_def [of "Pos n x y w h cs"])
qed

lemma bottom_leaf: "bottom (Pos n x y w h []) = y + h"
  by (simp add: bottom_def sth_leaf)

lemma bottom_node: "cs \<noteq> [] \<Longrightarrow> bottom (Pos n x y w h cs) = bottom (last cs)"
  by (simp add: bottom_def sth_node)

lemma layoutNode_unfold:
  assumes "layoutChildren cs (x + LEVEL_GAP) s = Inr ps"
  shows "layoutNode (Node i t cs) x s =
           Inr (Pos (Node i t cs) x
                  (if ps = [] then s
                   else (pos_y (hd ps) + bottom (last ps)) / 2 - NODE_HEIGHT / 2)
                  (nodeWidth t) NODE_HEIGHT ps)"
proof (cases "ps = []")
  case True
  then show ?thesis using assms by (simp add: nodeWidth_def)
next
  case False
  then show ?thesis
    using assms
    by (simp add: nodeWidth_def nth_checked_hd nth_checked_last
          getSubtreeHeight_total [of "last ps"] bottom_def)
qed

lemma layoutChildren_unfold:
  assumes "layoutNode c x s = Inr p" "layoutChildren cs x (bottom p + SIBLING_GAP) = Inr ps"
  shows "layoutChildren (c # cs) x s = Inr (p # ps)"
  using assms by (simp add: getSubtreeHeight_total [of p] bottom_def)

lemma layout_ex:
  "\<exists>p. layoutNode n x s = Inr p"
  "\<exists>ps. layoutChildren cs x s = Inr ps \<and> length ps = length cs"
proof (induction n x s and cs x s rule: layoutNode_layoutChildren.induct)
  case (1 i t cs x startY)
  then obtain ps where "layoutChildren cs (x + LEVEL_GAP) startY = Inr ps" by blast
  from layoutNode_unfold [OF this] show ?case by blast
next
  case (2 x currentY)
  then show ?case by simp
next
  case (3 child rest x currentY)
  from "3.IH"(1) obtain p where p: "layoutNode child x currentY = Inr p" by blast
  have g: "getSubtreeHeight p = Inr (sth p)" by (rule getSubtreeHeight_total)
  from "3.IH"(2) [OF p g] obtain ps where
    ps: "layoutChildren rest x (pos_y p + sth p + SIBLING_GAP) = Inr ps" "length ps = length rest"
    by blast
  from layoutChildren_unfold [OF p] ps show ?case by (simp add: bottom_def)
qed

lemma layoutNode_total: "layoutNode n x s = Inr (lay n x s)"
  using layout_ex(1) [of n x s] by (auto simp: lay_def)

lemma layoutChildren_total: "layoutChildren cs x s = Inr (layC cs x s)"
  using layout_ex(2) [of cs x s] by (auto simp: layC_def)

lemma length_layC: "length (layC cs x s) = length cs"
  using layout_ex(2) [of cs x s] by (auto simp: layC_def)

lemma layC_empty_iff: "layC cs x s = [] \<longleftrightarrow> cs = []"
  using length_layC [of cs x s] by auto

lemma layC_Nil: "layC [] x s = []"
  by (simp add: layC_def)

lemma layC_Cons:
  "layC (c # cs) x s = lay c x s # layC cs x (bottom (lay c x s) + SIBLING_GAP)"
proof -
  have "layoutChildren (c # cs) x s
          = Inr (lay c x s # layC cs x (bottom (lay c x s) + SIBLING_GAP))"
    by (rule layoutChildren_unfold [OF layoutNode_total layoutChildren_total])
  then show ?thesis by (simp only: layC_def [of "c # cs"] sum.sel)
qed

lemma lay_Node:
  "lay (Node i t cs) x s =
     Pos (Node i t cs) x
       (if cs = [] then s
        else (pos_y (hd (layC cs (x + LEVEL_GAP) s)) + bottom (last (layC cs (x + LEVEL_GAP) s))) / 2
               - NODE_HEIGHT / 2)
       (nodeWidth t) NODE_HEIGHT (layC cs (x + LEVEL_GAP) s)"
proof -
  note u = layoutNode_unfold [OF layoutChildren_total, where i = i and t = t and cs = cs and x = x and s = s]
  show ?thesis by (simp only: lay_def [of "Node i t cs"] u sum.sel layC_empty_iff)
qed

lemma lay_fields:
  "pos_node (lay n x s) = n" "pos_x (lay n x s) = x"
  "pos_children (lay n x s) = layC (node_children n) (x + LEVEL_GAP) s"
  "pos_height (lay n x s) = NODE_HEIGHT" "pos_width (lay n x s) = nodeWidth (node_text n)"
  by (cases n; simp add: lay_Node)+

lemma flattenPositions_eq:
  "flattenPositions p = p # concat (map flattenPositions (pos_children p))"
proof -
  have "foldl (\<lambda>result child. result @ f child) acc cs = acc @ concat (map f cs)"
    for f :: "NodePosition \<Rightarrow> NodePosition list" and acc cs
    by (induction cs arbitrary: acc) auto
  then show ?thesis by (cases p) (simp add: flattenPositions.simps)
qed

lemma flattenPositions_leaf: "flattenPositions (Pos n x y w h []) = [Pos n x y w h []]"
  by (simp add: flattenPositions.simps)

subsection \<open>Vertical extent of a laid-out subtree\<close>

lemma self_in_flatten: "p \<in> set (flattenPositions p)"
  by (subst flattenPositions_eq) simp

lemma bottom_lay_node:
  "cs \<noteq> [] \<Longrightarrow> bottom (lay (Node i t cs) x s) = bottom (last (layC cs (x + LEVEL_GAP) s))"
  by (simp add: lay_Node bottom_node layC_empty_iff)

lemma layC_spans:
  assumes "\<And>c x s. c \<in> set cs \<Longrightarrow> spans s (lay c x s)"
  shows "cs \<noteq> [] \<Longrightarrow>
           (\<forall>p\<in>set (layC cs x s). \<forall>q\<in>set (flattenPositions p). s \<le> pos_y q) \<and>
           (\<exists>q\<in>set (flattenPositions (hd (layC cs x s))). pos_y q = s) \<and>
           s + NODE_HEIGHT \<le> bottom (last (layC cs x s))"
  using assms
proof (induction cs arbitrary: s)
  case Nil
  then show ?case by simp
next
  case (Cons c cs)
  let ?p = "lay c x s"
  let ?s' = "bottom ?p + SIBLING_GAP"
  have w: "spans s ?p" using Cons.prems(2) by simp
  then have le: "s \<le> ?s'" by (simp add: spans_def NODE_HEIGHT_def SIBLING_GAP_def)
  show ?case
  proof (cases "cs = []")
    case True
    then show ?thesis using w by (simp add: layC_Cons layC_Nil spans_def)
  next
    case False
    have ih: "(\<forall>p\<in>set (layC cs x ?s'). \<forall>q\<in>set (flattenPositions p). ?s' \<le> pos_y q) \<and>
           (\<exists>q\<in>set (flattenPositions (hd (layC cs x ?s'))). pos_y q = ?s') \<and>
           ?s' + NODE_HEIGHT \<le> bottom (last (layC cs x ?s'))"
      using Cons.IH [OF False] Cons.prems(2) by simp
    have ne: "layC cs x ?s' \<noteq> []" using False by (simp add: layC_empty_iff)
    have 1: "\<forall>p\<in>set (layC cs x ?s'). \<forall>q\<in>set (flattenPositions p). s \<le> pos_y q"
      using ih le by fastforce
    have 2: "s + NODE_HEIGHT \<le> bottom (last (layC cs x ?s'))"
      using ih le by simp
    show ?thesis using w 1 2 ne by (simp add: layC_Cons spans_def)
  qed
qed

lemma lay_spans: "spans s (lay n x s)"
proof (induction n arbitrary: x s)
  case (Node i t cs)
  show ?case
  proof (cases "cs = []")
    case True
    then show ?thesis
      by (simp add: lay_Node layC_Nil spans_def flattenPositions_leaf bottom_leaf)
  next
    case False
    let ?ps = "layC cs (x + LEVEL_GAP) s"
    let ?p = "lay (Node i t cs) x s"
    have ne: "?ps \<noteq> []" using False by (simp add: layC_empty_iff)
    from layC_spans [OF Node.IH False, of "x + LEVEL_GAP" s]
    have A: "\<forall>p\<in>set ?ps. \<forall>q\<in>set (flattenPositions p). s \<le> pos_y q"
      and B: "\<exists>q\<in>set (flattenPositions (hd ?ps)). pos_y q = s"
      and C: "s + NODE_HEIGHT \<le> bottom (last ?ps)" by simp_all
    have ar: "s \<le> (u + v) / 2 - NODE_HEIGHT / 2" if "s \<le> u" "s + NODE_HEIGHT \<le> v" for u v :: rat
      using that by (simp add: NODE_HEIGHT_def field_simps)
    have "s \<le> pos_y (hd ?ps)" using A hd_in_set [OF ne] self_in_flatten [of "hd ?ps"] by blast
    then have y: "s \<le> pos_y ?p"
      using ar C False by (simp add: lay_Node)
    have f: "flattenPositions ?p = ?p # concat (map flattenPositions ?ps)"
      by (subst flattenPositions_eq) (simp add: lay_fields)
    have 1: "\<forall>q\<in>set (flattenPositions ?p). s \<le> pos_y q"
      using y A by (auto simp: f)
    have 2: "\<exists>q\<in>set (flattenPositions ?p). pos_y q = s"
      using B ne by (auto simp: f intro: hd_in_set)
    have 3: "s + NODE_HEIGHT \<le> bottom ?p"
      using C False by (simp add: bottom_lay_node)
    show ?thesis using 1 2 3 by (simp add: spans_def)
  qed
qed

lemma subtreeTop_lay: "subtreeTop (lay n x s) = s"
proof -
  have w: "spans s (lay n x s)" by (rule lay_spans)
  show ?thesis
    unfolding subtreeTop_def
  proof (rule Min_eqI)
    show "finite (pos_y ` set (flattenPositions (lay n x s)))" by simp
    show "\<And>y. y \<in> pos_y ` set (flattenPositions (lay n x s)) \<Longrightarrow> s \<le> y"
      using w by (auto simp: spans_def)
    show "s \<in> pos_y ` set (flattenPositions (lay n x s))"
      using w by (auto simp: spans_def image_iff)
  qed
qed

subsection \<open>Siblings and descendants\<close>

lemma layC_nth0: "cs \<noteq> [] \<Longrightarrow> layC cs x s ! 0 = lay (cs ! 0) x s"
  by (cases cs) (simp_all add: layC_Cons)

lemma layC_nth_Suc:
  "Suc i < length cs \<Longrightarrow>
     layC cs x s ! Suc i = lay (cs ! Suc i) x (bottom (layC cs x s ! i) + SIBLING_GAP)"
proof (induction cs arbitrary: s i)
  case Nil
  then show ?case by simp
next
  case (Cons c cs)
  show ?case
  proof (cases i)
    case 0
    then show ?thesis using Cons.prems by (simp add: layC_Cons layC_nth0)
  next
    case (Suc j)
    then show ?thesis using Cons.prems Cons.IH [of j] by (simp add: layC_Cons)
  qed
qed

lemma layC_elem: "p \<in> set (layC cs x s) \<Longrightarrow> \<exists>c\<in>set cs. \<exists>s'. p = lay c x s'"
  by (induction cs arbitrary: s) (auto simp: layC_Nil layC_Cons)

lemma flatten_lay_origin:
  "q \<in> set (flattenPositions (lay n x s)) \<Longrightarrow> \<exists>n' x' s'. q = lay n' x' s'"
proof (induction n arbitrary: x s)
  case (Node i t cs)
  let ?ps = "layC cs (x + LEVEL_GAP) s"
  have f: "flattenPositions (lay (Node i t cs) x s) = lay (Node i t cs) x s # concat (map flattenPositions ?ps)"
    by (subst flattenPositions_eq) (simp add: lay_fields)
  show ?case
  proof (cases "q = lay (Node i t cs) x s")
    case True
    then show ?thesis by blast
  next
    case False
    then obtain p where p: "p \<in> set ?ps" "q \<in> set (flattenPositions p)"
      using Node.prems by (auto simp: f)
    from layC_elem [OF p(1)] obtain c s' where c: "c \<in> set cs" "p = lay c (x + LEVEL_GAP) s'"
      by blast
    from Node.IH [OF c(1)] p(2) c(2) show ?thesis by blast
  qed
qed

lemma withDepth_eq:
  "withDepth d p = (d, p) # concat (map (withDepth (Suc d)) (pos_children p))"
  by (cases p) simp

lemma withDepth_lay:
  "(d, q) \<in> set (withDepth d0 (lay n x s)) \<Longrightarrow> d0 \<le> d \<and> pos_x q = x + LEVEL_GAP * of_nat (d - d0)"
proof (induction n arbitrary: x s d0)
  case (Node i t cs)
  let ?ps = "layC cs (x + LEVEL_GAP) s"
  have f: "withDepth d0 (lay (Node i t cs) x s)
             = (d0, lay (Node i t cs) x s) # concat (map (withDepth (Suc d0)) ?ps)"
    by (subst withDepth_eq) (simp add: lay_fields)
  show ?case
  proof (cases "(d, q) = (d0, lay (Node i t cs) x s)")
    case True
    then show ?thesis by (simp add: lay_fields)
  next
    case False
    then obtain p where p: "p \<in> set ?ps" "(d, q) \<in> set (withDepth (Suc d0) p)"
      using Node.prems by (auto simp: f)
    from layC_elem [OF p(1)] obtain c s' where c: "c \<in> set cs" "p = lay c (x + LEVEL_GAP) s'"
      by blast
    from Node.IH [OF c(1)] p(2) c(2)
    have "Suc d0 \<le> d \<and> pos_x q = x + LEVEL_GAP + LEVEL_GAP * of_nat (d - Suc d0)" by blast
    then show ?thesis by (simp add: Suc_diff_Suc algebra_simps of_nat_diff)
  qed
qed

lemma map_snd_withDepth: "map snd (withDepth d p) = flattenPositions p"
proof (induction p arbitrary: d)
  case (Pos n x y w h cs)
  have "map (\<lambda>c. map snd (withDepth (Suc d) c)) cs = map flattenPositions cs"
    using Pos.IH by simp
  then have e: "concat (map (\<lambda>c. map snd (withDepth (Suc d) c)) cs) = concat (map flattenPositions cs)"
    by (rule arg_cong)
  show ?case
    by (subst flattenPositions_eq) (simp add: map_concat comp_def e)
qed

subsection \<open>Bounding box\<close>






lemma popStack_decomp:
  "st \<noteq> [] \<Longrightarrow>
     \<exists>popped e rest. st = popped @ e # rest \<and> popStack l st = e # rest \<and>
        (\<forall>x\<in>set popped. l \<le> snd x) \<and> (rest = [] \<or> snd e < l)"
proof (induction l st rule: popStack.induct, goal_cases)
  case (1 level e below rest)
  show ?case
  proof (cases "level \<le> snd e")
    case True
    from 1(1) [OF True] obtain popped e' rest' where
      d: "below # rest = popped @ e' # rest'" "popStack level (below # rest) = e' # rest'"
         "\<forall>x\<in>set popped. level \<le> snd x" "rest' = [] \<or> snd e' < level"
      by blast
    have "e # below # rest = (e # popped) @ e' # rest'" using d(1) by simp
    moreover have "popStack level (e # below # rest) = e' # rest'" using True d(2) by simp
    moreover have "\<forall>x\<in>set (e # popped). level \<le> snd x" using True d(3) by simp
    ultimately show ?thesis using d(4) by blast
  next
    case False
    then have "e # below # rest = [] @ e # below # rest \<and>
        popStack level (e # below # rest) = e # below # rest \<and>
        (\<forall>x\<in>set []. level \<le> snd x) \<and> (below # rest = [] \<or> snd e < level)"
      by simp
    then show ?thesis by blast
  qed
next
  case (2 level)
  then show ?case by simp
next
  case (3 level v)
  have "[v] = [] @ v # [] \<and> popStack level [v] = v # [] \<and>
      (\<forall>x\<in>set []. level \<le> snd x) \<and> ([] = [] \<or> snd v < level)"
    by simp
  then show ?case by blast
qed

lemma calculateLayout_lay: "calculateLayout t = Inr p \<Longrightarrow> p = lay t 0 0"
  by (simp add: calculateLayout_def layoutNode_total)

section \<open>The claims\<close>



text \<open>
  Claim C2 (ancestor-stack attachment rule). One iteration of the loop, from any state whose
  stack is not empty and refers to objects of the store (the initial state is one, and the
  iteration leads to one again): the stack splits into the popped entries, all at a level greater
  than or equal to the line's level, and the rest, whose top entry is the last one of the stack or
  has a smaller level; the rest is never empty. The new node is allocated with the line's
  text and no children, it becomes the last child of the node on top of the rest, no other object
  changes, and it is pushed with the line's level. Consequently, when every entry above the
  root's has a level greater than or equal to the line's level, the parent is the root.
\<close>

theorem C2_attach:
  assumes "st \<noteq> []" and "\<forall>e\<in>set st. fst e < length h"
  shows "\<exists>popped parent lv rest h'.
           st = popped @ (parent, lv) # rest \<and>
           (\<forall>e\<in>set popped. pl_level pl \<le> snd e) \<and>
           (rest = [] \<or> lv < pl_level pl) \<and>
           attachLine ids (h, st) pl = Inr (h', (length h, pl_level pl) # (parent, lv) # rest) \<and>
           length h' = Suc (length h) \<and>
           o_text (h' ! length h) = pl_text pl \<and>
           o_children (h' ! length h) = [] \<and>
           o_children (h' ! parent) = o_children (h ! parent) @ [length h] \<and>
           (\<forall>a<length h. a \<noteq> parent \<longrightarrow> h' ! a = h ! a) \<and>
           (\<forall>e\<in>set ((length h, pl_level pl) # (parent, lv) # rest). fst e < length h') \<and>
           ((\<forall>e\<in>set (butlast st). pl_level pl \<le> snd e) \<longrightarrow> parent = fst (last st))"
proof -
  from popStack_decomp [OF assms(1), of "pl_level pl"] obtain popped e rest where
    d: "st = popped @ e # rest" "popStack (pl_level pl) st = e # rest"
       "\<forall>x\<in>set popped. pl_level pl \<le> snd x" "rest = [] \<or> snd e < pl_level pl"
    by blast
  obtain parent lv where e: "e = (parent, lv)" by (cases e)
  let ?new = "\<lparr>o_id = ids (length h), o_text = pl_text pl, o_children = []\<rparr>"
  let ?h1 = "h @ [?new]"
  let ?h' = "?h1[parent := (?h1 ! parent)\<lparr>o_children := o_children (?h1 ! parent) @ [length h]\<rparr>]"
  have p: "parent < length h" using assms(2) d(1) e by simp
  have valid: "\<forall>e\<in>set ((parent, lv) # rest). fst e < length h"
    using assms(2) d(1) e by simp
  have a: "attachLine ids (h, st) pl = Inr (?h', (length h, pl_level pl) # (parent, lv) # rest)"
    by (simp add: attachLine_def Let_def d(2) e)
  have root: "parent = fst (last st)" if "\<forall>e\<in>set (butlast st). pl_level pl \<le> snd e"
  proof (cases "rest = []")
    case True
    then show ?thesis using d(1) e by simp
  next
    case False
    then have "(parent, lv) \<in> set (butlast st)" using d(1) e by (simp add: butlast_append)
    then have "pl_level pl \<le> lv" using that by fastforce
    then show ?thesis using d(4) False e by simp
  qed
  have "st = popped @ (parent, lv) # rest" using d(1) e by simp
  moreover have "\<forall>e\<in>set popped. pl_level pl \<le> snd e" using d(3) .
  moreover have "rest = [] \<or> lv < pl_level pl" using d(4) e by simp
  moreover have "length ?h' = Suc (length h)" by simp
  moreover have "o_text (?h' ! length h) = pl_text pl" "o_children (?h' ! length h) = []"
    using p by simp_all
  moreover have "o_children (?h' ! parent) = o_children (h ! parent) @ [length h]"
    using p by (simp add: nth_append)
  moreover have "\<forall>a<length h. a \<noteq> parent \<longrightarrow> ?h' ! a = h ! a"
    by (simp add: nth_append)
  moreover have "\<forall>e\<in>set ((length h, pl_level pl) # (parent, lv) # rest). fst e < length ?h'"
    using valid by auto
  ultimately show ?thesis using a root by blast
qed

text \<open>
  Claim C2, instantiated: the state after the lines \<open>A\<close> (level 2), \<open>B\<close> (level 1) and
  \<open>C\<close> (level 3), and a line \<open>D\<close> at level 1. Both open ancestors above the root are
  popped, and \<open>D\<close> becomes a child of the root although the root's own level is larger.
\<close>

theorem C2_attach_witness:
  "sampleStack \<noteq> [] \<and>
   list_all (\<lambda>e. fst e < length sampleStore) sampleStack \<and>
   list_all (\<lambda>e. pl_level sampleLine \<le> snd e) (butlast sampleStack) \<and>
   (\<exists>popped parent lv rest h'.
      sampleStack = popped @ (parent, lv) # rest \<and>
      list_all (\<lambda>e. pl_level sampleLine \<le> snd e) popped \<and>
      (rest = [] \<or> lv < pl_level sampleLine) \<and>
      attachLine seqIds (sampleStore, sampleStack) sampleLine
        = Inr (h', (length sampleStore, pl_level sampleLine) # (parent, lv) # rest) \<and>
      o_children (h' ! parent) = o_children (sampleStore ! parent) @ [length sampleStore] \<and>
      parent = fst (last sampleStack))"
proof -
  have 1: "sampleStack \<noteq> []" by (simp add: sampleStack_def)
  have 2: "\<forall>e\<in>set sampleStack. fst e < length sampleStore"
    by (simp add: sampleStack_def sampleStore_def)
  have 3: "\<forall>e\<in>set (butlast sampleStack). pl_level sampleLine \<le> snd e"
    by (simp add: sampleStack_def sampleLine_def)
  from C2_attach [OF 1 2, of sampleLine seqIds] obtain popped parent lv rest h' where
    r: "sampleStack = popped @ (parent, lv) # rest"
       "\<forall>e\<in>set popped. pl_level sampleLine \<le> snd e"
       "rest = [] \<or> lv < pl_level sampleLine"
       "attachLine seqIds (sampleStore, sampleStack) sampleLine
          = Inr (h', (length sampleStore, pl_level sampleLine) # (parent, lv) # rest)"
       "o_children (h' ! parent) = o_children (sampleStore ! parent) @ [length sampleStore]"
       "(\<forall>e\<in>set (butlast sampleStack). pl_level sampleLine \<le> snd e) \<longrightarrow> parent = fst (last sampleStack)"
    by blast
  from r(6) 3 have p: "parent = fst (last sampleStack)" by blast
  have 4: "list_all (\<lambda>e. pl_level sampleLine \<le> snd e) popped"
    using r(2) by (simp add: list_all_iff)
  have "\<exists>popped parent lv rest h'.
      sampleStack = popped @ (parent, lv) # rest \<and>
      list_all (\<lambda>e. pl_level sampleLine \<le> snd e) popped \<and>
      (rest = [] \<or> lv < pl_level sampleLine) \<and>
      attachLine seqIds (sampleStore, sampleStack) sampleLine
        = Inr (h', (length sampleStore, pl_level sampleLine) # (parent, lv) # rest) \<and>
      o_children (h' ! parent) = o_children (sampleStore ! parent) @ [length sampleStore] \<and>
      parent = fst (last sampleStack)"
    using r(1,3,4,5) p 4 by blast
  then show ?thesis using 1 2 3 by (simp add: list_all_iff)
qed

text \<open>
  Claim C3. When the input has \<open>k \<ge> 1\<close> non-blank lines, \<open>parseTextToTree\<close> returns a
  tree and \<open>countNodes\<close> of it is \<open>k\<close>.
\<close>

theorem C3_count:
  assumes "1 \<le> length (nonBlankLines src)"
  shows "\<exists>t. parseTextToTree ids src = Inr t \<and> countNodes t = length (nonBlankLines src)"
proof -
  from parse_refines [of ids src] obtain t where t: "parseTextToTree ids src = Inr t" by blast
  have "nonBlankLines src \<noteq> []" using assms by auto
  then have "countNodes t = length (nonBlankLines src)"
    using parse_texts [OF t] by (simp add: countNodes_ptexts)
  with t show ?thesis by blast
qed

text \<open>
  Claim C3, instantiated: five lines, of which two are blank.
\<close>

theorem C3_count_witness:
  "1 \<le> length (nonBlankLines (str ''Root\<newline>  A\<newline>   \<newline>\<newline>  B'')) \<and>
   (\<exists>t. parseTextToTree seqIds (str ''Root\<newline>  A\<newline>   \<newline>\<newline>  B'') = Inr t \<and>
        countNodes t = length (nonBlankLines (str ''Root\<newline>  A\<newline>   \<newline>\<newline>  B'')))"
proof -
  have h: "1 \<le> length (nonBlankLines (str ''Root\<newline>  A\<newline>   \<newline>\<newline>  B''))"
    by code_simp
  from C3_count [OF h, of seqIds] h show ?thesis by blast
qed

text \<open>
  Claim C4 as stated measures the gap from the bottom of a subtree, its root's \<open>y\<close> plus its
  subtree height, to the top of the next sibling subtree, and takes it to be 20 for every pair
  of adjacent siblings. With the top of a subtree taken as its root's \<open>y\<close>, as for the
  earlier subtree, the gap between the two children of the root of the sample tree is 50: the
  first child has \<open>y = 0\<close> and subtree height 40, and the second child, centred on its own
  two children, has \<open>y = 90\<close>.
\<close>

theorem C4_sibling_gap_counterexample:
  "calculateLayout sampleTree = Inr sampleLayout \<and>
   getSubtreeHeight (pos_children sampleLayout ! 0) = Inr 40 \<and>
   pos_y (pos_children sampleLayout ! 1) - (pos_y (pos_children sampleLayout ! 0) + 40) = 50"
  by code_simp

text \<open>
  Claim C4, amended (sibling gap). In the position tree that \<open>calculateLayout\<close> returns, take any
  position \<open>q\<close> and two adjacent children of it. The earlier child has a subtree height
  \<open>s\<close>, and its subtree ends at \<open>y + s\<close>. The next child was laid out with its vertical
  cursor at that bottom plus \<open>SIBLING_GAP\<close>, and the top of its subtree, the least \<open>y\<close> of
  all positions in it, is that cursor: the gap between the bottom of the earlier subtree and
  the top of the next one is exactly \<open>SIBLING_GAP = 20\<close>. (The next child's own \<open>y\<close> can lie
  below the top of its subtree, since a parent is centred on its children.)
\<close>

theorem C4_sibling_gap:
  assumes "calculateLayout tree = Inr p" and "q \<in> set (flattenPositions p)"
    and "Suc i < length (pos_children q)"
  shows "\<exists>s n x. getSubtreeHeight (pos_children q ! i) = Inr s \<and>
           layoutNode n x (pos_y (pos_children q ! i) + s + SIBLING_GAP) = Inr (pos_children q ! Suc i) \<and>
           subtreeTop (pos_children q ! Suc i) - (pos_y (pos_children q ! i) + s) = SIBLING_GAP \<and>
           SIBLING_GAP = 20"
proof -
  have "q \<in> set (flattenPositions (lay tree 0 0))"
    using assms(1,2) calculateLayout_lay by blast
  from flatten_lay_origin [OF this] obtain n' x' s' where q: "q = lay n' x' s'" by blast
  let ?cs = "node_children n'" and ?X = "x' + LEVEL_GAP"
  have ch: "pos_children q = layC ?cs ?X s'" by (simp add: q lay_fields)
  have i: "Suc i < length ?cs" using assms(3) by (simp add: ch length_layC)
  let ?a = "pos_children q ! i" and ?b = "pos_children q ! Suc i"
  have b: "?b = lay (?cs ! Suc i) ?X (bottom ?a + SIBLING_GAP)"
    unfolding ch by (rule layC_nth_Suc [OF i])
  have 1: "getSubtreeHeight ?a = Inr (sth ?a)" by (rule getSubtreeHeight_total)
  have 2: "layoutNode (?cs ! Suc i) ?X (pos_y ?a + sth ?a + SIBLING_GAP) = Inr ?b"
    using b layoutNode_total [of "?cs ! Suc i" ?X "bottom ?a + SIBLING_GAP"] by (simp add: bottom_def)
  have "subtreeTop ?b = bottom ?a + SIBLING_GAP"
    by (subst b) (rule subtreeTop_lay)
  then have 3: "subtreeTop ?b - (pos_y ?a + sth ?a) = SIBLING_GAP" by (simp add: bottom_def)
  show ?thesis using 1 2 3 by (auto simp: SIBLING_GAP_def)
qed

text \<open>
  Claim C4 as amended, instantiated: the two children of the root of the sample tree. The first child ends
  at 40; the second child's subtree starts at 60, with the second child itself at 90.
\<close>

theorem C4_sibling_gap_witness:
  "calculateLayout sampleTree = Inr sampleLayout \<and>
   sampleLayout \<in> set (flattenPositions sampleLayout) \<and>
   Suc 0 < length (pos_children sampleLayout) \<and>
   (\<exists>s n x. getSubtreeHeight (pos_children sampleLayout ! 0) = Inr s \<and>
      layoutNode n x (pos_y (pos_children sampleLayout ! 0) + s + SIBLING_GAP)
        = Inr (pos_children sampleLayout ! Suc 0) \<and>
      subtreeTop (pos_children sampleLayout ! Suc 0) - (pos_y (pos_children sampleLayout ! 0) + s)
        = SIBLING_GAP \<and>
      SIBLING_GAP = 20)"
proof -
  have 1: "calculateLayout sampleTree = Inr sampleLayout" by code_simp
  have 2: "sampleLayout \<in> set (flattenPositions sampleLayout)" by code_simp
  have 3: "Suc 0 < length (pos_children sampleLayout)" by code_simp
  from C4_sibling_gap [OF 1 2 3] 1 2 3 show ?thesis by blast
qed



text \<open>
  Claim C6 as stated says that the placeholder, a node with text \<open>Empty Mindmap\<close> and no
  children, is returned precisely when the input has no non-blank line. The input
  \<open>Empty Mindmap\<close> has a non-blank line and gives that very node.
\<close>

theorem C6_placeholder_counterexample:
  "nonBlankLines (str ''Empty Mindmap'') \<noteq> [] \<and>
   parseTextToTree zeroIds (str ''Empty Mindmap'') = Inr (Node (zeroIds 0) (str ''Empty Mindmap'') [])"
  by code_simp

text \<open>
  Claim C6, amended. Whenever the input has no non-blank line, \<open>parseTextToTree\<close> returns
  the placeholder, a node with text \<open>Empty Mindmap\<close> and no children; this is a normal
  return, and the parser returns normally on every input. A result with that text and no
  children comes from such an input or from an input whose only non-blank line has the
  trimmed content \<open>Empty Mindmap\<close>.
\<close>

theorem C6_placeholder:
  "(nonBlankLines src = [] \<longrightarrow>
      parseTextToTree ids src = Inr (Node (ids 0) (str ''Empty Mindmap'') [])) \<and>
   (parseTextToTree ids src = Inr (Node i (str ''Empty Mindmap'') []) \<longrightarrow>
      nonBlankLines src = [] \<or> map trim (nonBlankLines src) = [str ''Empty Mindmap'']) \<and>
   (\<exists>t. parseTextToTree ids src = Inr t)"
proof (intro conjI impI)
  assume "nonBlankLines src = []"
  then have "parsedLines src = []" using length_parsedLines [of src] by simp
  then show "parseTextToTree ids src = Inr (Node (ids 0) (str ''Empty Mindmap'') [])"
    by (simp add: parseTextToTree_def)
next
  assume "parseTextToTree ids src = Inr (Node i (str ''Empty Mindmap'') [])"
  from parse_texts [OF this]
  show "nonBlankLines src = [] \<or> map trim (nonBlankLines src) = [str ''Empty Mindmap'']"
    by (simp split: if_splits)
next
  show "\<exists>t. parseTextToTree ids src = Inr t" using parse_refines [of ids src] by blast
qed

text \<open>
  Claim C6 as amended, instantiated at a white-space-only input and at an input whose only
  line is the placeholder text.
\<close>

theorem C6_placeholder_witness:
  "nonBlankLines (str ''   \<newline>\<newline>'') = [] \<and>
   parseTextToTree seqIds (str ''   \<newline>\<newline>'') = Inr (Node (seqIds 0) (str ''Empty Mindmap'') []) \<and>
   parseTextToTree seqIds (str '' Empty Mindmap'') = Inr (Node [0] (str ''Empty Mindmap'') []) \<and>
   (nonBlankLines (str '' Empty Mindmap'') = [] \<or>
    map trim (nonBlankLines (str '' Empty Mindmap'')) = [str ''Empty Mindmap''])"
proof -
  have 1: "nonBlankLines (str ''   \<newline>\<newline>'') = []" by code_simp
  have 2: "parseTextToTree seqIds (str '' Empty Mindmap'') = Inr (Node [0] (str ''Empty Mindmap'') [])"
    by code_simp
  from C6_placeholder [of "str ''   \<newline>\<newline>''" seqIds] 1
  have 3: "parseTextToTree seqIds (str ''   \<newline>\<newline>'') = Inr (Node (seqIds 0) (str ''Empty Mindmap'') [])"
    by blast
  from C6_placeholder [of "str '' Empty Mindmap''" seqIds "[0]"] 2
  have 4: "nonBlankLines (str '' Empty Mindmap'') = [] \<or>
    map trim (nonBlankLines (str '' Empty Mindmap'')) = [str ''Empty Mindmap'']"
    by blast
  from 1 2 3 4 show ?thesis by blast
qed





text \<open>
  Claim C9. In the position tree that \<open>calculateLayout\<close> returns, the \<open>x\<close> of every
  position is \<open>LEVEL_GAP = 150\<close> times its edge-depth; the renderer's test \<open>x === 0\<close> holds
  of a position exactly when its depth is 0, and the root is the only position at depth 0.
  Every \<open>y\<close> is non-negative, and the least \<open>y\<close> is 0.
\<close>

theorem C9_coordinates:
  assumes "calculateLayout tree = Inr p"
  shows "map snd (withDepth 0 p) = flattenPositions p \<and>
         (\<forall>e\<in>set (withDepth 0 p).
            pos_x (snd e) = LEVEL_GAP * of_nat (fst e) \<and>
            (isRoot (snd e) \<longleftrightarrow> fst e = 0) \<and> (fst e = 0 \<longleftrightarrow> snd e = p)) \<and>
         LEVEL_GAP = 150 \<and>
         (\<forall>q\<in>set (flattenPositions p). 0 \<le> pos_y q) \<and>
         Min (pos_y ` set (flattenPositions p)) = 0"
proof -
  have p: "p = lay tree 0 0" using assms by (rule calculateLayout_lay)
  have d: "pos_x q = LEVEL_GAP * of_nat d" if "(d, q) \<in> set (withDepth 0 p)" for d q
    using withDepth_lay [of d q 0 tree 0 0] that by (simp add: p)
  have deep: "d \<noteq> 0" if "(d, q) \<in> set (concat (map (withDepth (Suc 0)) (pos_children p)))" for d q
  proof -
    from that obtain c where c: "c \<in> set (pos_children p)" "(d, q) \<in> set (withDepth (Suc 0) c)"
      by auto
    from c(1) have "c \<in> set (layC (node_children tree) (0 + LEVEL_GAP) 0)" by (simp add: p lay_fields)
    from layC_elem [OF this] obtain n s where "c = lay n (0 + LEVEL_GAP) s" by blast
    with c(2) withDepth_lay [of d q "Suc 0" n "0 + LEVEL_GAP" s] show ?thesis by auto
  qed
  have w: "withDepth 0 p = (0, p) # concat (map (withDepth (Suc 0)) (pos_children p))"
    by (rule withDepth_eq)
  have px: "pos_x p = 0" by (simp add: p lay_fields)
  have e: "pos_x (snd e) = LEVEL_GAP * of_nat (fst e) \<and>
            (isRoot (snd e) \<longleftrightarrow> fst e = 0) \<and> (fst e = 0 \<longleftrightarrow> snd e = p)"
    if "e \<in> set (withDepth 0 p)" for e
  proof -
    obtain d q where dq: "e = (d, q)" by (cases e)
    have x: "pos_x q = LEVEL_GAP * of_nat d" using d that dq by simp
    have r: "isRoot q \<longleftrightarrow> d = 0" using x by (simp add: isRoot_def LEVEL_GAP_def)
    have "d = 0 \<longleftrightarrow> q = p"
    proof
      assume "d = 0"
      then show "q = p" using that dq w deep [of d q] by auto
    next
      assume "q = p"
      then show "d = 0" using x px by (simp add: LEVEL_GAP_def)
    qed
    with x r dq show ?thesis by simp
  qed
  have sp: "spans 0 p" unfolding p by (rule lay_spans)
  have "Min (pos_y ` set (flattenPositions p)) = 0"
    using subtreeTop_lay [of tree 0 0] by (simp add: p subtreeTop_def)
  then show ?thesis
    using e sp map_snd_withDepth [of 0 p] by (simp add: spans_def LEVEL_GAP_def)
qed

text \<open>
  Claim C9, instantiated at the sample layout: a grandchild at depth 2 has \<open>x = 300\<close> and is
  not taken for the root; the first child lies at \<open>y = 0\<close>.
\<close>

theorem C9_coordinates_witness:
  "calculateLayout sampleTree = Inr sampleLayout \<and>
   (2, Pos (Node (str ''n4'') (str ''e'') []) 300 120 100 40 []) \<in> set (withDepth 0 sampleLayout) \<and>
   pos_x (Pos (Node (str ''n4'') (str ''e'') []) 300 120 100 40 []) = LEVEL_GAP * of_nat 2 \<and>
   \<not> isRoot (Pos (Node (str ''n4'') (str ''e'') []) 300 120 100 40 []) \<and>
   Pos (Node (str ''n1'') (str ''b'') []) 150 0 100 40 [] \<in> set (flattenPositions sampleLayout) \<and>
   0 \<le> pos_y (Pos (Node (str ''n1'') (str ''b'') []) 150 0 100 40 []) \<and>
   Min (pos_y ` set (flattenPositions sampleLayout)) = 0"
proof -
  have 1: "calculateLayout sampleTree = Inr sampleLayout" by code_simp
  have 2: "(2, Pos (Node (str ''n4'') (str ''e'') []) 300 120 100 40 []) \<in> set (withDepth 0 sampleLayout)"
    by code_simp
  have 3: "Pos (Node (str ''n1'') (str ''b'') []) 150 0 100 40 [] \<in> set (flattenPositions sampleLayout)"
    by code_simp
  note t = C9_coordinates [OF 1]
  from t 2 have 4: "pos_x (Pos (Node (str ''n4'') (str ''e'') []) 300 120 100 40 []) = LEVEL_GAP * of_nat 2 \<and>
     \<not> isRoot (Pos (Node (str ''n4'') (str ''e'') []) 300 120 100 40 [])"
    by fastforce
  from t 3 have 5: "0 \<le> pos_y (Pos (Node (str ''n1'') (str ''b'') []) 150 0 100 40 [])" by blast
  from t have 6: "Min (pos_y ` set (flattenPositions sampleLayout)) = 0" by blast
  from 1 2 3 4 5 6 show ?thesis by blast
qed



end
